theory Spec2Isabelle
  imports Main
begin

section \<open>History screen: item store and pending deletion\<close>

text \<open>
  The history screen of \<^verbatim>\<open>poetry_camera_app.jsx\<close> keeps two pieces of React state:
  \<^verbatim>\<open>shots\<close>, an array of objects \<^verbatim>\<open>{ id }\<close>, and \<^verbatim>\<open>pending\<close>, which is
  \<^verbatim>\<open>null\<close> or an object \<^verbatim>\<open>{ id, secondsLeft }\<close>. The countdown effect owns one
  interval; the field \<open>interval\<close> records whether it is armed.
\<close>

record shot =
  id_shot :: int

record pending_rec =
  id_pend :: int
  secondsLeft :: int

record history =
  shots :: "shot list"
  pending :: "pending_rec option"
  interval :: bool

text \<open>\<^verbatim>\<open>Array.from({ length: 8 }, (_, i) => ({ id: i + 1 }))\<close>\<close>

definition initialShots :: "shot list" where
  "initialShots = map (\<lambda>i. \<lparr>id_shot = i\<rparr>) [1..8]"

definition HistoryScreen_init :: history where
  "HistoryScreen_init = \<lparr>shots = initialShots, pending = None, interval = False\<rparr>"

text \<open>
  The effect \<^verbatim>\<open>useEffect(..., [pending])\<close>: when \<^verbatim>\<open>pending\<close> has changed (a fresh
  object never equals the previous value, \<^verbatim>\<open>null\<close> equals \<^verbatim>\<open>null\<close>), the cleanup
  clears the interval of the previous run and the body arms a new one unless
  \<^verbatim>\<open>pending\<close> is \<^verbatim>\<open>null\<close>. The first argument is the value before the update.
\<close>

definition useEffect_pending :: "pending_rec option \<Rightarrow> history \<Rightarrow> history" where
  "useEffect_pending prev st =
     (if prev = None \<and> pending st = None then st
      else st\<lparr>interval := (pending st \<noteq> None)\<rparr>)"

text \<open>
  \<^verbatim>\<open>handleLongPressDelete\<close> is created anew by every render and reads the constant
  \<^verbatim>\<open>pending\<close> of that render in its guard; the two setters act on the current state.
  The first argument is that constant.
\<close>

definition handleLongPressDelete :: "pending_rec option \<Rightarrow> int \<Rightarrow> history \<Rightarrow> history" where
  "handleLongPressDelete pending_c i st =
     (if pending_c \<noteq> None then st
      else useEffect_pending (pending st)
             (st\<lparr>shots := filter (\<lambda>s. id_shot s \<noteq> i) (shots st),
                 pending := Some \<lparr>id_pend = i, secondsLeft = 5\<rparr>\<rparr>))"

text \<open>The function handed to \<^verbatim>\<open>setInterval\<close>.\<close>

definition interval_callback :: "history \<Rightarrow> history" where
  "interval_callback st =
     (case pending st of
        None \<Rightarrow> st
      | Some p \<Rightarrow>
          if secondsLeft p \<le> 1
          then useEffect_pending (Some p) (st\<lparr>interval := False, pending := None\<rparr>)
          else useEffect_pending (Some p)
                 (st\<lparr>pending := Some (p\<lparr>secondsLeft := secondsLeft p - 1\<rparr>)\<rparr>))"

text \<open>One second passes: the callback runs if an interval is armed.\<close>

definition elapse_second :: "history \<Rightarrow> history" where
  "elapse_second st = (if interval st then interval_callback st else st)"

primrec ticks :: "nat \<Rightarrow> history \<Rightarrow> history" where
  "ticks 0 st = st"
| "ticks (Suc n) st = elapse_second (ticks n st)"

text \<open>
  \<^verbatim>\<open>undoDelete\<close> reads \<^verbatim>\<open>pending.id\<close> from the render's constant; the sort is the
  stable \<^verbatim>\<open>Array.prototype.sort\<close> with comparator \<^verbatim>\<open>a.id - b.id\<close>.
\<close>

definition undoDelete :: "pending_rec option \<Rightarrow> history \<Rightarrow> history" where
  "undoDelete pending_c st =
     (case pending_c of
        None \<Rightarrow> st
      | Some p \<Rightarrow>
          useEffect_pending (pending st)
            (st\<lparr>shots := sort_key id_shot (shots st @ [\<lparr>id_shot = id_pend p\<rparr>]),
                pending := None\<rparr>))"

text \<open>The handlers of the render that shows the current state.\<close>

definition requestDelete :: "int \<Rightarrow> history \<Rightarrow> history" where
  "requestDelete i st = handleLongPressDelete (pending st) i st"

definition undo :: "history \<Rightarrow> history" where
  "undo st = undoDelete (pending st) st"

text \<open>
  What can happen to the history screen: a long-press event delivered to a handler that
  was created in a render with the given \<^verbatim>\<open>pending\<close>, one second passing, and a
  click on the undo button of the current render.
\<close>

datatype action = LongPress "pending_rec option" int | Second | UndoClick

fun act :: "action \<Rightarrow> history \<Rightarrow> history" where
  "act (LongPress pending_c i) st = handleLongPressDelete pending_c i st"
| "act Second st = elapse_second st"
| "act UndoClick st = undo st"

fun run_history :: "action list \<Rightarrow> history \<Rightarrow> history" where
  "run_history [] st = st"
| "run_history (a # as) st = run_history as (act a st)"

text \<open>No two shots share an id, and the id of a pending deletion is not in the store.\<close>

definition unique_keys :: "history \<Rightarrow> bool" where
  "unique_keys st \<longleftrightarrow>
     distinct (map id_shot (shots st)) \<and>
     (case pending st of None \<Rightarrow> True | Some p \<Rightarrow> id_pend p \<notin> id_shot ` set (shots st))"

definition seconds_in_window :: "history \<Rightarrow> bool" where
  "seconds_in_window st \<longleftrightarrow>
     (case pending st of None \<Rightarrow> True | Some p \<Rightarrow> 1 \<le> secondsLeft p \<and> secondsLeft p \<le> 5)"

text \<open>The interval is armed exactly while a deletion is pending.\<close>

definition countdown_ok :: "history \<Rightarrow> bool" where
  "countdown_ok st \<longleftrightarrow> interval st = (pending st \<noteq> None) \<and> seconds_in_window st"

section \<open>ShotItem: long-press detection\<close>

text \<open>
  One \<^verbatim>\<open>ShotItem\<close> owns the ref \<^verbatim>\<open>timerRef\<close>. The timeouts it has armed live in the
  platform's timer table: \<open>timers\<close> holds, for each armed timeout, its handle and the
  milliseconds left; \<open>next_handle\<close> is the handle the next \<^verbatim>\<open>setTimeout\<close> returns
  (handles are positive and never reused); \<open>fired\<close> lists the handles of the timeouts
  that have run \<^verbatim>\<open>onLongPress(id)\<close>, in order.
\<close>

record detector =
  timerRef :: "nat option"
  timers :: "(nat \<times> nat) list"
  next_handle :: nat
  fired :: "nat list"

definition ShotItem_init :: detector where
  "ShotItem_init = \<lparr>timerRef = None, timers = [], next_handle = 1, fired = []\<rparr>"

text \<open>\<^verbatim>\<open>timerRef.current = setTimeout(() => onLongPress(id), 3000)\<close>\<close>

definition startPress :: "detector \<Rightarrow> detector" where
  "startPress d =
     d\<lparr>timerRef := Some (next_handle d),
       timers := timers d @ [(next_handle d, 3000)],
       next_handle := next_handle d + 1\<rparr>"

text \<open>
  \<^verbatim>\<open>timerRef.current && clearTimeout(timerRef.current)\<close>: nothing happens for
  \<^verbatim>\<open>null\<close> and for the falsy handle 0; clearing a handle that is not armed is a no-op.
\<close>

definition endPress :: "detector \<Rightarrow> detector" where
  "endPress d =
     (case timerRef d of
        None \<Rightarrow> d
      | Some h \<Rightarrow> if h = 0 then d else d\<lparr>timers := filter (\<lambda>t. fst t \<noteq> h) (timers d)\<rparr>)"

text \<open>Time passes: every timeout that is due runs once and leaves the table.\<close>

definition elapse :: "nat \<Rightarrow> detector \<Rightarrow> detector" where
  "elapse ms d =
     d\<lparr>timers := map (\<lambda>t. (fst t, snd t - ms)) (filter (\<lambda>t. ms < snd t) (timers d)),
       fired := fired d @ map fst (filter (\<lambda>t. snd t \<le> ms) (timers d))\<rparr>"

datatype gesture = PressStart | PressEnd | Elapse nat

fun step :: "gesture \<Rightarrow> detector \<Rightarrow> detector" where
  "step PressStart d = startPress d"
| "step PressEnd d = endPress d"
| "step (Elapse ms) d = elapse ms d"

fun run :: "gesture list \<Rightarrow> detector \<Rightarrow> detector" where
  "run [] d = d"
| "run (g # gs) d = run gs (step g d)"

text \<open>A press starts only when no timeout of the item is armed.\<close>

fun well_sequenced :: "gesture list \<Rightarrow> detector \<Rightarrow> bool" where
  "well_sequenced [] d = True"
| "well_sequenced (g # gs) d =
     ((g = PressStart \<longrightarrow> timers d = []) \<and> well_sequenced gs (step g d))"

text \<open>The next handle is positive and larger than every handle handed out so far.\<close>

definition handles_fresh :: "detector \<Rightarrow> bool" where
  "handles_fresh d \<longleftrightarrow>
     0 < next_handle d \<and>
     (\<forall>h \<in> fst ` set (timers d). h < next_handle d) \<and>
     (\<forall>h \<in> set (fired d). h < next_handle d)"

text \<open>How often a handle occurs, armed or fired.\<close>

definition occ :: "nat \<Rightarrow> detector \<Rightarrow> nat" where
  "occ h d = count_list (map fst (timers d)) h + count_list (fired d) h"

text \<open>The time that passes during a list of gestures.\<close>

fun total_ms :: "gesture list \<Rightarrow> nat" where
  "total_ms [] = 0"
| "total_ms (Elapse ms # gs) = ms + total_ms gs"
| "total_ms (g # gs) = total_ms gs"

section \<open>The history screen with its items\<close>

text \<open>
  \<^verbatim>\<open><ShotItem key={shot.id} id={shot.id} onLongPress={handleLongPressDelete} />\<close>:
  every render hands each item the handler of that render, and \<^verbatim>\<open>startPress\<close> puts
  the handler it was given into the timeout's callback. A press timeout therefore
  carries the item's id and the \<^verbatim>\<open>pending\<close> its handler was created with.
\<close>

record press_timer =
  due :: nat
  item :: int
  handler_pending :: "pending_rec option"

record screen =
  hist :: history
  press_timers :: "press_timer list"

definition screen_init :: screen where
  "screen_init = \<lparr>hist = HistoryScreen_init, press_timers = []\<rparr>"

text \<open>A press starts on the item with the given id, if the list shows such an item.\<close>

definition press_item :: "int \<Rightarrow> screen \<Rightarrow> screen" where
  "press_item i sc =
     (if i \<in> id_shot ` set (shots (hist sc))
      then sc\<lparr>press_timers := press_timers sc @
                 [\<lparr>due = 3000, item = i, handler_pending = pending (hist sc)\<rparr>]\<rparr>
      else sc)"

text \<open>
  The press is held for the given time: the press timeouts that are due run in order.
  Only the press timeouts are followed here; the ticks of the countdown are the action
  \<open>Second\<close> of the history screen.
\<close>

definition hold :: "nat \<Rightarrow> screen \<Rightarrow> screen" where
  "hold ms sc =
     \<lparr>hist = foldl (\<lambda>h t. handleLongPressDelete (handler_pending t) (item t) h) (hist sc)
               (filter (\<lambda>t. due t \<le> ms) (press_timers sc)),
      press_timers = map (\<lambda>t. t\<lparr>due := due t - ms\<rparr>)
                       (filter (\<lambda>t. ms < due t) (press_timers sc))\<rparr>"

section \<open>Facts about the history screen\<close>

lemmas history_defs = requestDelete_def undo_def handleLongPressDelete_def undoDelete_def
  useEffect_pending_def interval_callback_def elapse_second_def

lemma filter_absent: "i \<notin> id_shot ` set xs \<Longrightarrow> filter (\<lambda>s. id_shot s \<noteq> i) xs = xs"
  by (induction xs) auto

lemma distinct_filter_shot:
  "distinct (map id_shot xs) \<Longrightarrow> distinct (map id_shot (filter P xs))"
  by (induction xs) auto

lemma request_idle:
  "pending st = None \<Longrightarrow>
   requestDelete i st =
     st\<lparr>shots := filter (\<lambda>s. id_shot s \<noteq> i) (shots st),
        pending := Some \<lparr>id_pend = i, secondsLeft = 5\<rparr>, interval := True\<rparr>"
  by (simp add: history_defs)

lemma ticks_pending:
  assumes "pending st = Some \<lparr>id_pend = i, secondsLeft = 5\<rparr>" "interval st" "k < 5"
  shows "ticks k st = st\<lparr>pending := Some \<lparr>id_pend = i, secondsLeft = 5 - int k\<rparr>\<rparr>"
  using assms
proof (induction k)
  case 0
  then show ?case by simp
next
  case (Suc k)
  then show ?case by (simp add: history_defs)
qed




text \<open>
  A shot has no field but its id, so appending one to a list sorted by id and sorting
  again is the same as inserting it at its place.
\<close>

lemma sort_snoc_shot:
  "sorted (map id_shot xs) \<Longrightarrow>
   sort_key id_shot (xs @ [x]) = insort_key id_shot x (xs :: shot list)"
proof (induction xs)
  case Nil
  then show ?case by simp
next
  case (Cons a xs)
  have ge: "\<forall>y\<in>set xs. id_shot a \<le> id_shot y" using Cons.prems by simp
  have ih: "sort_key id_shot (xs @ [x]) = insort_key id_shot x xs"
    using Cons by simp
  show ?case
  proof (cases "id_shot x \<le> id_shot a")
    case True
    then have "\<forall>y\<in>set xs. id_shot x \<le> id_shot y" using ge by auto
    then have "insort_key id_shot x xs = x # xs" by (rule insort_is_Cons)
    moreover have "insort_key id_shot a xs = a # xs" using ge by (rule insort_is_Cons)
    moreover have "id_shot a \<le> id_shot x \<Longrightarrow> a = x" using True by (cases a, cases x) simp
    ultimately show ?thesis using True ih by auto
  next
    case False
    then have "\<forall>y\<in>set (insort_key id_shot x xs). id_shot a \<le> id_shot y"
      using ge by (auto simp: set_insort_key)
    then have "insort_key id_shot a (insort_key id_shot x xs) = a # insort_key id_shot x xs"
      by (rule insort_is_Cons)
    then show ?thesis using False ih by simp
  qed
qed

lemma restore_sorted:
  "sorted (map id_shot (xs :: shot list)) \<Longrightarrow> distinct (map id_shot xs) \<Longrightarrow>
   i \<in> id_shot ` set xs \<Longrightarrow>
   insort_key id_shot \<lparr>id_shot = i\<rparr> (filter (\<lambda>s. id_shot s \<noteq> i) xs) = xs"
proof (induction xs)
  case Nil
  then show ?case by simp
next
  case (Cons a xs)
  show ?case
  proof (cases "id_shot a = i")
    case True
    then have "i \<notin> id_shot ` set xs" using Cons.prems by auto
    then have f: "filter (\<lambda>s. id_shot s \<noteq> i) xs = xs" by (rule filter_absent)
    have "\<forall>y\<in>set xs. id_shot \<lparr>id_shot = i\<rparr> \<le> id_shot y" using Cons.prems True by auto
    then have "insort_key id_shot \<lparr>id_shot = i\<rparr> xs = \<lparr>id_shot = i\<rparr> # xs"
      by (rule insort_is_Cons)
    moreover have "a = \<lparr>id_shot = i\<rparr>" using True by (cases a) simp
    ultimately show ?thesis using True f by simp
  next
    case False
    then have mem: "i \<in> id_shot ` set xs" using Cons.prems by auto
    then have "id_shot a \<le> i" using Cons.prems by auto
    then have "id_shot a < i" using False by simp
    then show ?thesis using Cons False mem by simp
  qed
qed

lemma distinct_sort_snoc:
  assumes "distinct (map id_shot xs)" and "i \<notin> id_shot ` set xs"
  shows "distinct (map id_shot (sort_key id_shot (xs @ [\<lparr>id_shot = i\<rparr>])))"
proof -
  have "distinct (map id_shot (xs @ [\<lparr>id_shot = i\<rparr>]))" using assms by auto
  then have "distinct (xs @ [\<lparr>id_shot = i\<rparr>]) \<and> inj_on id_shot (set (xs @ [\<lparr>id_shot = i\<rparr>]))"
    by (simp only: distinct_map)
  then have "distinct (sort_key id_shot (xs @ [\<lparr>id_shot = i\<rparr>])) \<and>
             inj_on id_shot (set (sort_key id_shot (xs @ [\<lparr>id_shot = i\<rparr>])))"
    by (simp only: distinct_sort set_sort)
  then show ?thesis by (simp only: distinct_map)
qed

subsection \<open>Invariants of the screen's actions\<close>

lemma unique_keys_act: "unique_keys st \<Longrightarrow> unique_keys (act a st)"
proof (cases a)
  case (LongPress c i)
  assume "unique_keys st"
  then show ?thesis using LongPress
    by (auto simp: unique_keys_def handleLongPressDelete_def useEffect_pending_def
        distinct_filter_shot split: option.splits)
next
  case Second
  assume "unique_keys st"
  then show ?thesis using Second
    by (auto simp: unique_keys_def elapse_second_def interval_callback_def useEffect_pending_def
        split: option.splits)
next
  case UndoClick
  assume "unique_keys st"
  then show ?thesis using UndoClick
    by (auto simp: unique_keys_def undo_def undoDelete_def useEffect_pending_def
        distinct_sort_snoc split: option.splits)
qed

lemma unique_keys_run: "unique_keys st \<Longrightarrow> unique_keys (run_history as st)"
  by (induction as arbitrary: st) (simp_all add: unique_keys_act)

lemma seconds_in_window_act: "seconds_in_window st \<Longrightarrow> seconds_in_window (act a st)"
  by (cases a) (auto simp: seconds_in_window_def history_defs split: option.splits)

lemma seconds_in_window_run: "seconds_in_window st \<Longrightarrow> seconds_in_window (run_history as st)"
  by (induction as arbitrary: st) (simp_all add: seconds_in_window_act)

lemma countdown_ok_act: "countdown_ok st \<Longrightarrow> countdown_ok (act a st)"
  by (cases a)
     (auto simp: countdown_ok_def seconds_in_window_def history_defs split: option.splits)

lemma countdown_ok_run: "countdown_ok st \<Longrightarrow> countdown_ok (run_history as st)"
  by (induction as arbitrary: st) (simp_all add: countdown_ok_act)

lemma idle_countdown_ok: "pending st = None \<Longrightarrow> \<not> interval st \<Longrightarrow> countdown_ok st"
  by (simp add: countdown_ok_def seconds_in_window_def)

lemma init_idle: "pending HistoryScreen_init = None" "\<not> interval HistoryScreen_init"
  by (simp_all add: HistoryScreen_init_def)

lemma init_shots: "shots HistoryScreen_init = map (\<lambda>i. \<lparr>id_shot = i\<rparr>) [1, 2, 3, 4, 5, 6, 7, 8]"
  by (simp add: HistoryScreen_init_def initialShots_def upto.simps)

section \<open>Claims about the pending-deletion controller\<close>

text \<open>
  C1 (as stated): a long press for an id that is not in the store, received while no
  deletion is pending, changes nothing. The code has no presence check: on the initial
  screen, id 9 is not in the store, and the request still creates a pending record.
\<close>

theorem requestDelete_absent_not_inert:
  "pending HistoryScreen_init = None \<and>
   9 \<notin> id_shot ` set (shots HistoryScreen_init) \<and>
   pending (requestDelete 9 HistoryScreen_init) = Some \<lparr>id_pend = 9, secondsLeft = 5\<rparr> \<and>
   requestDelete 9 HistoryScreen_init \<noteq> HistoryScreen_init"
proof -
  have "pending (requestDelete 9 HistoryScreen_init) = Some \<lparr>id_pend = 9, secondsLeft = 5\<rparr>"
    by (simp add: request_idle init_idle)
  moreover from this have "requestDelete 9 HistoryScreen_init \<noteq> HistoryScreen_init"
    using init_idle(1) by auto
  ultimately show ?thesis by (simp add: init_idle init_shots)
qed

text \<open>
  C1 (amended): for every id that is not in the store, \<open>requestDelete\<close> received while
  no deletion is pending leaves the store unchanged, but it does enter the pending
  state: a record with that id and \<open>secondsLeft = 5\<close> is created and the interval is
  armed.
\<close>

theorem requestDelete_absent_enters_pending:
  assumes "pending st = None" and "i \<notin> id_shot ` set (shots st)"
  shows "shots (requestDelete i st) = shots st \<and>
         pending (requestDelete i st) = Some \<lparr>id_pend = i, secondsLeft = 5\<rparr> \<and>
         interval (requestDelete i st)"
  using assms by (simp add: request_idle filter_absent)

theorem requestDelete_absent_enters_pending_witness:
  "pending HistoryScreen_init = None \<and>
   9 \<notin> id_shot ` set (shots HistoryScreen_init) \<and>
   shots (requestDelete 9 HistoryScreen_init) = shots HistoryScreen_init \<and>
   pending (requestDelete 9 HistoryScreen_init) = Some \<lparr>id_pend = 9, secondsLeft = 5\<rparr> \<and>
   interval (requestDelete 9 HistoryScreen_init)"
proof -
  have h1: "pending HistoryScreen_init = None" by (rule init_idle)
  have h2: "9 \<notin> id_shot ` set (shots HistoryScreen_init)" by (simp add: init_shots)
  show ?thesis
    using h1 h2 requestDelete_absent_enters_pending [OF h1 h2] by simp
qed



text \<open>
  C4: in a pending state reached by \<open>requestDelete\<close> on a store whose remaining items
  are ordered by id, \<open>undo\<close> before expiry (after \<open>k < 5\<close> ticks) stops the interval,
  puts the item back so that the store is the remaining items with the item appended
  and sorted by id, which is the item inserted at its place in the order, drops the
  pending record and returns to idle; a further second then changes nothing. If the
  store was duplicate-free, ordered and held the item, it is the original store again.
\<close>

theorem undo_restores_item:
  assumes "pending st = None"
    and "sorted (map id_shot (shots (requestDelete i st)))"
    and "k < 5"
  shows "pending (ticks k (requestDelete i st)) = Some \<lparr>id_pend = i, secondsLeft = 5 - int k\<rparr> \<and>
         interval (ticks k (requestDelete i st)) \<and>
         shots (undo (ticks k (requestDelete i st))) =
           sort_key id_shot (shots (ticks k (requestDelete i st)) @ [\<lparr>id_shot = i\<rparr>]) \<and>
         shots (undo (ticks k (requestDelete i st))) =
           insort_key id_shot \<lparr>id_shot = i\<rparr> (filter (\<lambda>s. id_shot s \<noteq> i) (shots st)) \<and>
         sorted (map id_shot (shots (undo (ticks k (requestDelete i st))))) \<and>
         pending (undo (ticks k (requestDelete i st))) = None \<and>
         \<not> interval (undo (ticks k (requestDelete i st))) \<and>
         elapse_second (undo (ticks k (requestDelete i st))) = undo (ticks k (requestDelete i st)) \<and>
         (distinct (map id_shot (shots st)) \<and> sorted (map id_shot (shots st)) \<and>
          i \<in> id_shot ` set (shots st) \<longrightarrow>
            shots (undo (ticks k (requestDelete i st))) = shots st)"
proof -
  let ?s = "requestDelete i st"
  let ?rest = "filter (\<lambda>s. id_shot s \<noteq> i) (shots st)"
  let ?t = "ticks k ?s"
  have p: "pending ?s = Some \<lparr>id_pend = i, secondsLeft = 5\<rparr>" and a: "interval ?s"
    and sh: "shots ?s = ?rest"
    using assms(1) by (simp_all add: request_idle)
  have t: "?t = ?s\<lparr>pending := Some \<lparr>id_pend = i, secondsLeft = 5 - int k\<rparr>\<rparr>"
    using ticks_pending[OF p a assms(3)] .
  have srt: "sorted (map id_shot ?rest)" using assms(2) sh by simp
  have c1: "pending ?t = Some \<lparr>id_pend = i, secondsLeft = 5 - int k\<rparr>" by (simp add: t)
  have c2: "interval ?t" using a by (simp add: t)
  have u: "undo ?t = ?t\<lparr>shots := sort_key id_shot (shots ?t @ [\<lparr>id_shot = i\<rparr>]),
                        pending := None, interval := False\<rparr>"
    using c1 by (simp add: undo_def undoDelete_def useEffect_pending_def)
  have c3: "shots (undo ?t) = sort_key id_shot (shots ?t @ [\<lparr>id_shot = i\<rparr>])"
    by (simp add: u)
  have sht: "shots ?t = ?rest" by (simp add: t sh)
  have c4: "shots (undo ?t) = insort_key id_shot \<lparr>id_shot = i\<rparr> ?rest"
    unfolding c3 sht using srt by (rule sort_snoc_shot)
  have c5: "sorted (map id_shot (shots (undo ?t)))"
    unfolding c4 using srt by (simp add: sorted_insort_key)
  have c6: "pending (undo ?t) = None" by (simp add: u)
  have c7: "\<not> interval (undo ?t)" by (simp add: u)
  have c8: "elapse_second (undo ?t) = undo ?t" using c7 by (simp add: elapse_second_def)
  have c9: "shots (undo ?t) = shots st"
    if "distinct (map id_shot (shots st)) \<and> sorted (map id_shot (shots st)) \<and>
        i \<in> id_shot ` set (shots st)"
    unfolding c4 using that by (simp add: restore_sorted)
  show ?thesis using c1 c2 c3 c4 c5 c6 c7 c8 c9 by blast
qed

theorem undo_restores_item_witness:
  "pending HistoryScreen_init = None \<and>
   sorted (map id_shot (shots (requestDelete 3 HistoryScreen_init))) \<and>
   (2::nat) < 5 \<and>
   pending (ticks 2 (requestDelete 3 HistoryScreen_init)) =
     Some \<lparr>id_pend = 3, secondsLeft = 3\<rparr> \<and>
   shots (undo (ticks 2 (requestDelete 3 HistoryScreen_init))) = shots HistoryScreen_init \<and>
   pending (undo (ticks 2 (requestDelete 3 HistoryScreen_init))) = None \<and>
   \<not> interval (undo (ticks 2 (requestDelete 3 HistoryScreen_init))) \<and>
   elapse_second (undo (ticks 2 (requestDelete 3 HistoryScreen_init))) =
     undo (ticks 2 (requestDelete 3 HistoryScreen_init))"
proof -
  have h1: "pending HistoryScreen_init = None" by (rule init_idle)
  have h2: "sorted (map id_shot (shots (requestDelete 3 HistoryScreen_init)))"
    by (simp add: request_idle init_idle init_shots)
  have h3: "(2::nat) < 5" by simp
  have h4: "distinct (map id_shot (shots HistoryScreen_init)) \<and>
            sorted (map id_shot (shots HistoryScreen_init)) \<and>
            3 \<in> id_shot ` set (shots HistoryScreen_init)"
    by (simp add: init_shots)
  note t = undo_restores_item [OF h1 h2 h3]
  from t h4 have r: "shots (undo (ticks 2 (requestDelete 3 HistoryScreen_init))) =
    shots HistoryScreen_init" by blast
  from t have "pending (ticks 2 (requestDelete 3 HistoryScreen_init)) =
    Some \<lparr>id_pend = 3, secondsLeft = 5 - int 2\<rparr>" by blast
  then have p: "pending (ticks 2 (requestDelete 3 HistoryScreen_init)) =
    Some \<lparr>id_pend = 3, secondsLeft = 3\<rparr>" by simp
  show ?thesis using h1 h2 h3 r p t by blast
qed

text \<open>
  C5: a pending deletion starts with \<open>secondsLeft = 5\<close>. In every pending state that the
  screen can reach from an idle one, the interval is armed and a tick takes exactly one
  off \<open>secondsLeft\<close>: if the result is positive the controller stays pending with that
  value, and it finalizes (record dropped, interval stopped) exactly when the result is
  0. No tick touches the store.
\<close>

theorem countdown_decrement:
  assumes "pending st0 = None" and "\<not> interval st0"
    and "pending (run_history as st0) = Some p"
  shows "pending (requestDelete i st0) = Some \<lparr>id_pend = i, secondsLeft = 5\<rparr> \<and>
         interval (run_history as st0) \<and>
         (0 < secondsLeft p - 1 \<longrightarrow>
            pending (elapse_second (run_history as st0)) =
              Some (p\<lparr>secondsLeft := secondsLeft p - 1\<rparr>) \<and>
            interval (elapse_second (run_history as st0))) \<and>
         (secondsLeft p - 1 = 0 \<longrightarrow>
            pending (elapse_second (run_history as st0)) = None \<and>
            \<not> interval (elapse_second (run_history as st0))) \<and>
         (pending (elapse_second (run_history as st0)) = None \<longleftrightarrow> secondsLeft p - 1 = 0) \<and>
         shots (elapse_second (run_history as st0)) = shots (run_history as st0)"
proof -
  let ?st = "run_history as st0"
  have "countdown_ok ?st"
    using assms(1,2) by (intro countdown_ok_run idle_countdown_ok)
  then have a: "interval ?st" and lo: "1 \<le> secondsLeft p"
    using assms(3) by (simp_all add: countdown_ok_def seconds_in_window_def)
  have c1: "pending (requestDelete i st0) = Some \<lparr>id_pend = i, secondsLeft = 5\<rparr>"
    using assms(1) by (simp add: request_idle)
  have c3: "0 < secondsLeft p - 1 \<longrightarrow>
            pending (elapse_second ?st) = Some (p\<lparr>secondsLeft := secondsLeft p - 1\<rparr>) \<and>
            interval (elapse_second ?st)"
    using a assms(3) by (simp add: elapse_second_def interval_callback_def useEffect_pending_def)
  have c4: "secondsLeft p - 1 = 0 \<longrightarrow>
            pending (elapse_second ?st) = None \<and> \<not> interval (elapse_second ?st)"
    using a assms(3) by (simp add: elapse_second_def interval_callback_def useEffect_pending_def)
  have c5: "pending (elapse_second ?st) = None \<longleftrightarrow> secondsLeft p - 1 = 0"
    using a lo assms(3)
    by (auto simp: elapse_second_def interval_callback_def useEffect_pending_def)
  have c6: "shots (elapse_second ?st) = shots ?st"
    using a assms(3) by (simp add: elapse_second_def interval_callback_def useEffect_pending_def)
  show ?thesis using a c1 c3 c4 c5 c6 by blast
qed

theorem countdown_decrement_witness:
  "pending HistoryScreen_init = None \<and> \<not> interval HistoryScreen_init \<and>
   pending (run_history [LongPress None 3, Second] HistoryScreen_init) =
     Some \<lparr>id_pend = 3, secondsLeft = 4\<rparr> \<and>
   pending (elapse_second (run_history [LongPress None 3, Second] HistoryScreen_init)) =
     Some \<lparr>id_pend = 3, secondsLeft = 3\<rparr> \<and>
   pending (run_history [LongPress None 3, Second, Second, Second, Second] HistoryScreen_init) =
     Some \<lparr>id_pend = 3, secondsLeft = 1\<rparr> \<and>
   pending (elapse_second
     (run_history [LongPress None 3, Second, Second, Second, Second] HistoryScreen_init)) = None \<and>
   \<not> interval (elapse_second
     (run_history [LongPress None 3, Second, Second, Second, Second] HistoryScreen_init))"
proof -
  have h1: "pending HistoryScreen_init = None" and h2: "\<not> interval HistoryScreen_init"
    by (rule init_idle)+
  have h3: "pending (run_history [LongPress None 3, Second] HistoryScreen_init) =
     Some \<lparr>id_pend = 3, secondsLeft = 4\<rparr>"
    by (simp add: history_defs HistoryScreen_init_def)
  have h4: "pending (run_history [LongPress None 3, Second, Second, Second, Second]
      HistoryScreen_init) = Some \<lparr>id_pend = 3, secondsLeft = 1\<rparr>"
    by (simp add: history_defs HistoryScreen_init_def)
  have "pending (elapse_second (run_history [LongPress None 3, Second] HistoryScreen_init)) =
     Some (\<lparr>id_pend = 3, secondsLeft = 4\<rparr>\<lparr>secondsLeft := secondsLeft \<lparr>id_pend = 3, secondsLeft = 4\<rparr> - 1\<rparr>)"
    using countdown_decrement [OF h1 h2 h3] by simp
  then have a: "pending (elapse_second (run_history [LongPress None 3, Second] HistoryScreen_init)) =
     Some \<lparr>id_pend = 3, secondsLeft = 3\<rparr>" by simp
  have b: "pending (elapse_second
     (run_history [LongPress None 3, Second, Second, Second, Second] HistoryScreen_init)) = None \<and>
   \<not> interval (elapse_second
     (run_history [LongPress None 3, Second, Second, Second, Second] HistoryScreen_init))"
    using countdown_decrement [OF h1 h2 h4] by simp
  show ?thesis using h1 h2 h3 h4 a b by blast
qed

text \<open>
  C9: the store never holds two items with the same id. If the store is duplicate-free
  and a pending id, if any, is not in it, then the same holds after every sequence of
  long presses (by whichever handler), ticks and undo clicks; the undo never inserts an
  id that is still in the store, because the pending id is absent while pending.
\<close>

theorem store_keys_stay_unique:
  assumes "unique_keys st"
  shows "unique_keys (run_history as st) \<and>
         distinct (map id_shot (shots (run_history as st))) \<and>
         (\<forall>p. pending (run_history as st) = Some p \<longrightarrow>
              id_pend p \<notin> id_shot ` set (shots (run_history as st)))"
  using unique_keys_run[OF assms, of as] by (auto simp: unique_keys_def split: option.splits)

theorem store_keys_stay_unique_witness:
  "unique_keys HistoryScreen_init \<and>
   distinct (map id_shot
     (shots (run_history [LongPress None 3, Second, UndoClick] HistoryScreen_init)))"
proof -
  have h: "unique_keys HistoryScreen_init"
    by (simp add: unique_keys_def init_idle init_shots)
  show ?thesis using h store_keys_stay_unique [OF h] by blast
qed

text \<open>
  C10: whenever a deletion is pending, in any state reached from an idle one, its
  \<open>secondsLeft\<close> is between 1 and 5: the record is dropped instead of being shown
  with 0.
\<close>

theorem secondsLeft_between_1_and_5:
  assumes "pending st = None" and "pending (run_history as st) = Some p"
  shows "1 \<le> secondsLeft p \<and> secondsLeft p \<le> 5"
proof -
  have "seconds_in_window st" using assms(1) by (simp add: seconds_in_window_def)
  then have "seconds_in_window (run_history as st)" by (rule seconds_in_window_run)
  then show ?thesis using assms(2) by (simp add: seconds_in_window_def)
qed

theorem secondsLeft_between_1_and_5_witness:
  "pending HistoryScreen_init = None \<and>
   pending (run_history [LongPress None 3, Second, Second] HistoryScreen_init) =
     Some \<lparr>id_pend = 3, secondsLeft = 3\<rparr> \<and>
   1 \<le> secondsLeft \<lparr>id_pend = 3, secondsLeft = 3\<rparr> \<and>
   secondsLeft \<lparr>id_pend = 3, secondsLeft = 3\<rparr> \<le> 5"
proof -
  have h1: "pending HistoryScreen_init = None" by (rule init_idle)
  have h2: "pending (run_history [LongPress None 3, Second, Second] HistoryScreen_init) =
     Some \<lparr>id_pend = 3, secondsLeft = 3\<rparr>"
    by (simp add: history_defs HistoryScreen_init_def)
  show ?thesis using h1 h2 secondsLeft_between_1_and_5 [OF h1 h2] by blast
qed

section \<open>Facts about the press detector\<close>

lemmas detector_defs = startPress_def endPress_def elapse_def

lemma next_handle_step: "next_handle d \<le> next_handle (step g d)"
  by (cases g) (auto simp: detector_defs split: option.splits)

lemma count_partition:
  "count_list (map f (filter P xs)) h + count_list (map f (filter (\<lambda>x. \<not> P x) xs)) h
   = count_list (map f xs) h"
  by (induction xs) auto

lemma count_filter_le: "count_list (map f (filter P xs)) h \<le> count_list (map f xs) h"
  by (induction xs) auto

text \<open>A timeout that runs moves from the table to the fired list; nothing else moves.\<close>

lemma occ_elapse: "occ h (elapse ms d) = occ h d"
proof -
  have "(\<lambda>t. \<not> ms < snd t) = (\<lambda>t::nat \<times> nat. snd t \<le> ms)" by (auto simp: fun_eq_iff)
  then have "count_list (map fst (filter (\<lambda>t. ms < snd t) (timers d))) h
        + count_list (map fst (filter (\<lambda>t. snd t \<le> ms) (timers d))) h
        = count_list (map fst (timers d)) h"
    using count_partition[of fst "\<lambda>t. ms < snd t" "timers d" h] by simp
  then show ?thesis by (simp add: occ_def elapse_def comp_def)
qed

lemma occ_endPress: "occ h (endPress d) \<le> occ h d"
  by (simp add: occ_def endPress_def count_filter_le split: option.splits)

lemma occ_startPress: "h < next_handle d \<Longrightarrow> occ h (startPress d) = occ h d"
  by (simp add: occ_def startPress_def)

lemma occ_step: "h < next_handle d \<Longrightarrow> occ h (step g d) \<le> occ h d"
  by (cases g) (simp_all add: occ_elapse occ_endPress occ_startPress)

lemma occ_run: "h < next_handle d \<Longrightarrow> occ h (run gs d) \<le> occ h d"
proof (induction gs arbitrary: d)
  case Nil
  then show ?case by simp
next
  case (Cons g gs)
  have "h < next_handle (step g d)"
    using Cons.prems next_handle_step[of d g] by simp
  then have "occ h (run gs (step g d)) \<le> occ h (step g d)" by (rule Cons.IH)
  also have "\<dots> \<le> occ h d" using Cons.prems by (rule occ_step)
  finally show ?case by simp
qed

lemma fired_count_mono: "count_list (fired d) h \<le> count_list (fired (step g d)) h"
  by (cases g) (auto simp: detector_defs split: option.splits)

lemma fired_count_run: "count_list (fired d) h \<le> count_list (fired (run gs d)) h"
proof (induction gs arbitrary: d)
  case Nil
  then show ?case by simp
next
  case (Cons g gs)
  have "count_list (fired d) h \<le> count_list (fired (step g d)) h" by (rule fired_count_mono)
  also have "\<dots> \<le> count_list (fired (run gs (step g d))) h" by (rule Cons.IH)
  finally show ?case by simp
qed

lemma fired_le_occ: "count_list (fired d) h \<le> occ h d"
  by (simp add: occ_def)

lemma fresh_occ_0: "handles_fresh d \<Longrightarrow> occ (next_handle d) d = 0"
  by (auto simp: occ_def handles_fresh_def count_list_0_iff)

lemma at_most_one_step:
  assumes "length (timers d) \<le> 1" and "g = PressStart \<longrightarrow> timers d = []"
  shows "length (timers (step g d)) \<le> 1"
proof -
  have f: "length (filter P (timers d)) \<le> 1" for P
    using assms(1) length_filter_le[of P "timers d"] by linarith
  show ?thesis
  proof (cases g)
    case PressStart
    then show ?thesis using assms(2) by (simp add: startPress_def)
  next
    case PressEnd
    then show ?thesis using assms(1) f by (simp add: endPress_def split: option.splits)
  next
    case (Elapse ms)
    then show ?thesis using f by (simp add: elapse_def)
  qed
qed

lemma at_most_one_run:
  "length (timers d) \<le> 1 \<Longrightarrow> well_sequenced gs d \<Longrightarrow> length (timers (run gs d)) \<le> 1"
proof (induction gs arbitrary: d)
  case Nil
  then show ?case by simp
next
  case (Cons g gs)
  have "length (timers (step g d)) \<le> 1"
    using Cons.prems by (intro at_most_one_step) simp_all
  moreover have "well_sequenced gs (step g d)" using Cons.prems by simp
  ultimately show ?case using Cons.IH by simp
qed

lemma ShotItem_init_fresh: "handles_fresh ShotItem_init"
  by (simp add: handles_fresh_def ShotItem_init_def)

lemma run_append: "run (gs @ gs') d = run gs' (run gs d)"
  by (induction gs arbitrary: d) simp_all

text \<open>While less time passes than a timeout has left, it stays armed and the ref is kept.\<close>

lemma armed_while_waiting:
  "(h, r) \<in> set (timers d) \<Longrightarrow> sum_list mss < r \<Longrightarrow>
   (h, r - sum_list mss) \<in> set (timers (run (map Elapse mss) d)) \<and>
   timerRef (run (map Elapse mss) d) = timerRef d \<and>
   next_handle (run (map Elapse mss) d) = next_handle d"
proof (induction mss arbitrary: d r)
  case Nil
  then show ?case by simp
next
  case (Cons m mss)
  have lt: "m < r" and rest: "sum_list mss < r - m" using Cons.prems(2) by simp_all
  have "(h, r - m) \<in> set (timers (elapse m d))"
    using Cons.prems(1) lt by (force simp: elapse_def)
  from Cons.IH[OF this rest] show ?case by (simp add: elapse_def)
qed

text \<open>Without a release, a timeout runs once the time it has left has passed.\<close>

lemma due_timer_fires:
  "(h, r) \<in> set (timers d) \<Longrightarrow> 0 < r \<Longrightarrow> PressEnd \<notin> set gs \<Longrightarrow> r \<le> total_ms gs \<Longrightarrow>
   1 \<le> count_list (fired (run gs d)) h"
proof (induction gs arbitrary: d r)
  case Nil
  then show ?case by simp
next
  case (Cons g gs)
  show ?case
  proof (cases g)
    case PressStart
    have "(h, r) \<in> set (timers (startPress d))"
      using Cons.prems(1) by (simp add: startPress_def)
    from Cons.IH[OF this Cons.prems(2)] show ?thesis
      using Cons.prems(3,4) PressStart by simp
  next
    case PressEnd
    then show ?thesis using Cons.prems(3) by simp
  next
    case (Elapse m)
    show ?thesis
    proof (cases "r \<le> m")
      case True
      then have "h \<in> set (fired (elapse m d))"
        using Cons.prems(1) by (force simp: elapse_def)
      then have "1 \<le> count_list (fired (elapse m d)) h"
        using count_list_0_iff[of "fired (elapse m d)" h] by linarith
      also have "\<dots> \<le> count_list (fired (run gs (elapse m d))) h"
        by (rule fired_count_run)
      finally show ?thesis using Elapse by simp
    next
      case False
      then have "(h, r - m) \<in> set (timers (elapse m d))"
        using Cons.prems(1) by (force simp: elapse_def)
      moreover have "0 < r - m" using False by simp
      moreover have "PressEnd \<notin> set gs" using Cons.prems(3) by simp
      moreover have "r - m \<le> total_ms gs" using Cons.prems(4) Elapse by simp
      ultimately have "1 \<le> count_list (fired (run gs (elapse m d))) h" by (rule Cons.IH)
      then show ?thesis using Elapse by simp
    qed
  qed
qed

lemma member_count_pos: "(h, r) \<in> set ts \<Longrightarrow> 1 \<le> count_list (map fst ts) h"
proof -
  assume "(h, r) \<in> set ts"
  then have "h \<in> set (map fst ts)" by force
  then show ?thesis using count_list_0_iff[of "map fst ts" h] by linarith
qed

text \<open>A release right after a start clears the new timeout and no other.\<close>

lemma endPress_after_start:
  assumes "handles_fresh d"
  shows "timers (endPress (startPress d)) = timers d"
    and "endPress (endPress (startPress d)) = endPress (startPress d)"
proof -
  have pos: "0 < next_handle d" using assms by (simp add: handles_fresh_def)
  have old: "\<forall>t \<in> set (timers d). fst t \<noteq> next_handle d"
    using assms by (auto simp: handles_fresh_def)
  then have f: "filter (\<lambda>t. fst t \<noteq> next_handle d) (timers d) = timers d"
    by (simp add: filter_id_conv)
  show "timers (endPress (startPress d)) = timers d"
    using pos f by (simp add: detector_defs)
  show "endPress (endPress (startPress d)) = endPress (startPress d)"
    using pos f by (simp add: detector_defs)
qed

section \<open>Claims about the press detector\<close>

text \<open>
  C2 (as stated): a press start while a timeout is armed cancels and replaces it, so
  an item never has two armed timeouts. \<^verbatim>\<open>startPress\<close> only overwrites the ref: after
  two starts on a new item both timeouts are armed.
\<close>

theorem startPress_twice_two_timers:
  "timers (startPress (startPress ShotItem_init)) = [(1, 3000), (2, 3000)] \<and>
   timerRef (startPress (startPress ShotItem_init)) = Some 2"
  by (simp add: startPress_def ShotItem_init_def)

text \<open>
  C2 (amended): an item has at most one armed timeout at any time as long as no press
  starts while one is armed. \<open>startPress\<close> itself cancels nothing: it arms a new
  3000 ms timeout next to those already armed and keeps only the new handle in the ref.
  A release after such a start clears the new timeout only: every timeout that was
  armed before stays armed, and a further release changes nothing.
\<close>

theorem startPress_keeps_prior_timer:
  "(timers d = [] \<and> well_sequenced gs d \<longrightarrow> length (timers (run gs d)) \<le> 1) \<and>
   timers (startPress d) = timers d @ [(next_handle d, 3000)] \<and>
   timerRef (startPress d) = Some (next_handle d) \<and>
   (handles_fresh d \<longrightarrow>
      timers (endPress (startPress d)) = timers d \<and>
      endPress (endPress (startPress d)) = endPress (startPress d))"
  using at_most_one_run[of d gs] endPress_after_start[of d] by (simp add: startPress_def)

theorem startPress_keeps_prior_timer_witness:
  "timers ShotItem_init = [] \<and>
   well_sequenced [PressStart, Elapse 1000, PressEnd, PressStart, Elapse 3000, PressEnd, PressStart]
     ShotItem_init \<and>
   length (timers (run [PressStart, Elapse 1000, PressEnd, PressStart, Elapse 3000, PressEnd,
     PressStart] ShotItem_init)) \<le> 1 \<and>
   handles_fresh (startPress ShotItem_init) \<and>
   timers (startPress (startPress ShotItem_init)) = [(1, 3000), (2, 3000)] \<and>
   timers (endPress (startPress (startPress ShotItem_init))) = [(1, 3000)] \<and>
   timers (endPress (endPress (startPress (startPress ShotItem_init)))) = [(1, 3000)]"
proof -
  have h1: "timers ShotItem_init = []" by (simp add: ShotItem_init_def)
  have h2: "well_sequenced
     [PressStart, Elapse 1000, PressEnd, PressStart, Elapse 3000, PressEnd, PressStart]
     ShotItem_init"
    by (simp add: detector_defs ShotItem_init_def)
  have h3: "handles_fresh (startPress ShotItem_init)"
    by (simp add: handles_fresh_def startPress_def ShotItem_init_def)
  have t1: "timers (startPress ShotItem_init) = [(1, 3000)]"
    and n1: "next_handle (startPress ShotItem_init) = 2"
    by (simp_all add: startPress_def ShotItem_init_def)
  note a = startPress_keeps_prior_timer [of ShotItem_init
      "[PressStart, Elapse 1000, PressEnd, PressStart, Elapse 3000, PressEnd, PressStart]"]
  note b = startPress_keeps_prior_timer [of "startPress ShotItem_init" "[]"]
  from b h3 have b1: "timers (endPress (startPress (startPress ShotItem_init))) =
      timers (startPress ShotItem_init)"
    and b2: "endPress (endPress (startPress (startPress ShotItem_init))) =
      endPress (startPress (startPress ShotItem_init))"
    and b3: "timers (startPress (startPress ShotItem_init)) =
      timers (startPress ShotItem_init) @ [(next_handle (startPress ShotItem_init), 3000)]"
    by blast+
  have c1: "timers (endPress (startPress (startPress ShotItem_init))) = [(1, 3000)]"
    using b1 t1 by simp
  have c2: "timers (endPress (endPress (startPress (startPress ShotItem_init)))) = [(1, 3000)]"
    using b2 c1 by simp
  have c3: "timers (startPress (startPress ShotItem_init)) = [(1, 3000), (2, 3000)]"
    using b3 t1 n1 by simp
  show ?thesis using h1 h2 h3 a c1 c2 c3 by blast
qed

text \<open>
  C7 (as stated): no press that starts and is released before 3000 ms have passed ever
  emits a long-press event. A second start on the item before the release overwrites
  the ref, so the release clears the second timeout only: on a new item, start, 50 ms,
  start, 50 ms, release leaves the first timeout armed, and it emits its event once
  3000 ms have passed, with or without a second release.
\<close>

theorem released_press_fires_after_second_start:
  "sum_list [50, 50 :: nat] < 3000 \<and>
   next_handle ShotItem_init \<in>
     set (fired (run [Elapse 3000]
       (endPress (run [Elapse 50, PressStart, Elapse 50] (startPress ShotItem_init))))) \<and>
   timers (run [PressStart, Elapse 50, PressStart, Elapse 50, PressEnd, PressEnd]
     ShotItem_init) = [(1, 2900)] \<and>
   fired (run [PressStart, Elapse 50, PressStart, Elapse 50, PressEnd, PressEnd, Elapse 3000]
     ShotItem_init) = [1]"
  by (simp add: detector_defs ShotItem_init_def)

text \<open>
  C7 (amended): a press that starts and ends (or is cancelled: the same handler) before
  3000 ms have passed, with no other start on the item between the two, never emits a
  long-press event, whatever happens to the item afterwards: its timeout is neither
  armed nor fired. On an item with no other timeout armed, no event at all is emitted
  and no timeout is left.
\<close>

theorem short_press_never_fires:
  assumes "handles_fresh d" and "sum_list mss < 3000"
  shows "next_handle d \<notin>
           set (fired (run gs (endPress (run (map Elapse mss) (startPress d))))) \<and>
         next_handle d \<notin>
           fst ` set (timers (run gs (endPress (run (map Elapse mss) (startPress d))))) \<and>
         (timers d = [] \<longrightarrow>
            timers (endPress (run (map Elapse mss) (startPress d))) = [] \<and>
            fired (endPress (run (map Elapse mss) (startPress d))) = fired d)"
proof -
  let ?h = "next_handle d"
  let ?w = "run (map Elapse mss) (startPress d)"
  let ?e = "endPress ?w"
  have pos: "0 < ?h" using assms(1) by (simp add: handles_fresh_def)
  have "(?h, 3000) \<in> set (timers (startPress d))" by (simp add: startPress_def)
  from armed_while_waiting[OF this assms(2)]
  have armed: "(?h, 3000 - sum_list mss) \<in> set (timers ?w)"
    and ref: "timerRef ?w = Some ?h"
    and nh: "next_handle ?w = ?h + 1"
    by (simp_all add: startPress_def)
  have "occ ?h (startPress d) = 1"
    using fresh_occ_0[OF assms(1)] by (simp add: occ_def startPress_def)
  moreover have "occ ?h ?w \<le> occ ?h (startPress d)"
    by (rule occ_run) (simp add: startPress_def)
  ultimately have ow: "occ ?h ?w \<le> 1" by simp
  have one: "1 \<le> count_list (map fst (timers ?w)) ?h" using armed by (rule member_count_pos)
  have fw: "count_list (fired ?w) ?h = 0" using ow one by (simp add: occ_def)
  have te: "timers ?e = filter (\<lambda>t. fst t \<noteq> ?h) (timers ?w)" and fe: "fired ?e = fired ?w"
    using ref pos by (simp_all add: endPress_def)
  have "count_list (map fst (timers ?e)) ?h = 0"
    unfolding te by (auto simp: count_list_0_iff)
  then have z: "occ ?h ?e = 0" using fw fe by (simp add: occ_def)
  have "?h < next_handle ?e" using nh ref pos by (simp add: endPress_def)
  then have "occ ?h (run gs ?e) \<le> occ ?h ?e" by (rule occ_run)
  then have "occ ?h (run gs ?e) = 0" using z by simp
  then have c1: "?h \<notin> set (fired (run gs ?e))"
    and c2: "?h \<notin> fst ` set (timers (run gs ?e))"
    by (simp_all add: occ_def count_list_0_iff)
  have c3: "timers ?e = [] \<and> fired ?e = fired d" if empty: "timers d = []"
  proof -
    have len: "length (timers ?w) \<le> 1"
    proof -
      have "length (timers (startPress d)) \<le> 1" using empty by (simp add: startPress_def)
      moreover have "well_sequenced (map Elapse ms') d'" for ms' d'
        by (induction ms' arbitrary: d') simp_all
      ultimately show ?thesis by (intro at_most_one_run)
    qed
    have "timers ?w = [(?h, 3000 - sum_list mss)]"
    proof (cases "timers ?w")
      case Nil
      then show ?thesis using armed by simp
    next
      case (Cons t ts)
      then have "ts = []" using len by simp
      then show ?thesis using armed Cons by simp
    qed
    then have t0: "timers ?e = []" unfolding te by simp
    have "fired ?w = fired d"
    proof -
      have "fired (run (map Elapse ms') d') = fired d'"
        if "\<forall>t \<in> set (timers d'). sum_list ms' < snd t" for ms' d'
        using that
      proof (induction ms' arbitrary: d')
        case Nil
        then show ?case by simp
      next
        case (Cons m ms')
        have none: "filter (\<lambda>t. snd t \<le> m) (timers d') = []"
          using Cons.prems by (auto simp: filter_empty_conv)
        have "\<forall>t \<in> set (timers (elapse m d')). sum_list ms' < snd t"
          using Cons.prems by (auto simp: elapse_def)
        then have "fired (run (map Elapse ms') (elapse m d')) = fired (elapse m d')"
          by (rule Cons.IH)
        then show ?case using none by (simp add: elapse_def)
      qed
      from this[of "startPress d" mss] show ?thesis
        using empty assms(2) by (simp add: startPress_def)
    qed
    then show ?thesis using t0 fe by simp
  qed
  show ?thesis using c1 c2 c3 by blast
qed

theorem short_press_never_fires_witness:
  "handles_fresh ShotItem_init \<and> sum_list [1000, 1999 :: nat] < 3000 \<and>
   next_handle ShotItem_init \<notin>
     set (fired (run [Elapse 5000]
       (endPress (run (map Elapse [1000, 1999]) (startPress ShotItem_init))))) \<and>
   fired (endPress (run (map Elapse [1000, 1999]) (startPress ShotItem_init))) = []"
proof -
  have h1: "handles_fresh ShotItem_init" by (rule ShotItem_init_fresh)
  have h2: "sum_list [1000, 1999 :: nat] < 3000" by simp
  have h3: "timers ShotItem_init = []" "fired ShotItem_init = []"
    by (simp_all add: ShotItem_init_def)
  show ?thesis
    using h1 h2 h3 short_press_never_fires [OF h1 h2, of "[Elapse 5000]"] by simp
qed

text \<open>
  C8: a press that starts and is not ended while at least 3000 ms pass emits exactly
  one long-press event, and whatever follows (more time, releases, further presses) the
  count for that press stays one; no press ever emits more than one event.
\<close>

theorem long_press_fires_once:
  assumes "handles_fresh d" and "PressEnd \<notin> set gs" and "3000 \<le> total_ms gs"
  shows "count_list (fired (run gs (startPress d))) (next_handle d) = 1 \<and>
         count_list (fired (run (gs @ gs') (startPress d))) (next_handle d) = 1 \<and>
         count_list (fired (run gs'' (startPress d))) (next_handle d) \<le> 1"
proof -
  let ?h = "next_handle d"
  let ?s = "startPress d"
  have os: "occ ?h ?s = 1"
    using fresh_occ_0[OF assms(1)] by (simp add: occ_def startPress_def)
  have lt: "?h < next_handle ?s" by (simp add: startPress_def)
  have le1: "count_list (fired (run xs ?s)) ?h \<le> 1" for xs
  proof -
    have "count_list (fired (run xs ?s)) ?h \<le> occ ?h (run xs ?s)" by (rule fired_le_occ)
    also have "\<dots> \<le> occ ?h ?s" using lt by (rule occ_run)
    finally show ?thesis using os by simp
  qed
  have "(?h, 3000) \<in> set (timers ?s)" by (simp add: startPress_def)
  then have ge1: "1 \<le> count_list (fired (run gs ?s)) ?h"
    using assms(2,3) by (intro due_timer_fires[where r = 3000]) simp_all
  have c1: "count_list (fired (run gs ?s)) ?h = 1" using ge1 le1[of gs] by simp
  have "count_list (fired (run gs ?s)) ?h \<le> count_list (fired (run gs' (run gs ?s))) ?h"
    by (rule fired_count_run)
  then have c2: "count_list (fired (run (gs @ gs') ?s)) ?h = 1"
    using c1 le1[of "gs @ gs'"] by (simp add: run_append)
  show ?thesis using c1 c2 le1[of gs''] by blast
qed

theorem long_press_fires_once_witness:
  "handles_fresh ShotItem_init \<and>
   PressEnd \<notin> set [Elapse 1000, Elapse 2000] \<and>
   3000 \<le> total_ms [Elapse 1000, Elapse 2000] \<and>
   fired (run [Elapse 1000, Elapse 2000] (startPress ShotItem_init)) = [1] \<and>
   count_list (fired (run ([Elapse 1000, Elapse 2000] @ [Elapse 60000, PressEnd, Elapse 60000])
     (startPress ShotItem_init))) (next_handle ShotItem_init) = 1"
proof -
  have h1: "handles_fresh ShotItem_init" by (rule ShotItem_init_fresh)
  have h2: "PressEnd \<notin> set [Elapse 1000, Elapse 2000]" by simp
  have h3: "3000 \<le> total_ms [Elapse 1000, Elapse 2000]" by simp
  have h4: "fired (run [Elapse 1000, Elapse 2000] (startPress ShotItem_init)) = [1]"
    by (simp add: detector_defs ShotItem_init_def)
  show ?thesis
    using h1 h2 h3 h4
      long_press_fires_once [OF h1 h2 h3, of "[Elapse 60000, PressEnd, Elapse 60000]"]
    by blast
qed

section \<open>Long presses that overlap\<close>

text \<open>
  The guard of \<open>handleLongPressDelete\<close> rejects the request when the handler was
  created in a render that already had a pending deletion; the handler of the render
  that shows the current state is such a handler whenever a deletion is pending.
\<close>

lemma handler_with_pending_rejects:
  "pending_c \<noteq> None \<Longrightarrow> handleLongPressDelete pending_c i st = st"
  by (simp add: handleLongPressDelete_def)

lemma requestDelete_while_pending: "pending st \<noteq> None \<Longrightarrow> requestDelete i st = st"
  by (simp add: requestDelete_def handler_with_pending_rejects)

text \<open>
  C6: a request that arrives while a deletion is pending must leave the store and the
  pending record unchanged. The press timeout calls the handler of the render in which
  the press started. Two presses that start while nothing is pending, on items 1 and 2,
  500 ms apart and both held: after 3000 ms the first deletes item 1 and makes it
  pending; 500 ms later the second runs a handler whose \<^verbatim>\<open>pending\<close> is still
  \<^verbatim>\<open>null\<close>, removes item 2 as well and replaces the pending record, so item 1 can no
  longer be restored.
\<close>

theorem stale_handler_replaces_pending:
  "pending (hist (hold 2500 (press_item 2 (hold 500 (press_item 1 screen_init))))) =
     Some \<lparr>id_pend = 1, secondsLeft = 5\<rparr> \<and>
   shots (hist (hold 2500 (press_item 2 (hold 500 (press_item 1 screen_init))))) =
     map (\<lambda>i. \<lparr>id_shot = i\<rparr>) [2, 3, 4, 5, 6, 7, 8] \<and>
   pending (hist (hold 500 (hold 2500 (press_item 2 (hold 500 (press_item 1 screen_init)))))) =
     Some \<lparr>id_pend = 2, secondsLeft = 5\<rparr> \<and>
   shots (hist (hold 500 (hold 2500 (press_item 2 (hold 500 (press_item 1 screen_init)))))) =
     map (\<lambda>i. \<lparr>id_shot = i\<rparr>) [3, 4, 5, 6, 7, 8] \<and>
   handleLongPressDelete None 2 (requestDelete 1 HistoryScreen_init) \<noteq>
     requestDelete 1 HistoryScreen_init"
proof -
  have a: "hold 2500 (press_item 2 (hold 500 (press_item 1 screen_init))) =
    \<lparr>hist = \<lparr>shots = map (\<lambda>i. \<lparr>id_shot = i\<rparr>) [2, 3, 4, 5, 6, 7, 8],
             pending = Some \<lparr>id_pend = 1, secondsLeft = 5\<rparr>, interval = True\<rparr>,
     press_timers = [\<lparr>due = 500, item = 2, handler_pending = None\<rparr>]\<rparr>"
    by (simp add: hold_def press_item_def screen_init_def HistoryScreen_init_def
        initialShots_def upto.simps handleLongPressDelete_def useEffect_pending_def)
  have b: "hold 500
      \<lparr>hist = \<lparr>shots = map (\<lambda>i. \<lparr>id_shot = i\<rparr>) [2, 3, 4, 5, 6, 7, 8],
               pending = Some \<lparr>id_pend = 1, secondsLeft = 5\<rparr>, interval = True\<rparr>,
       press_timers = [\<lparr>due = 500, item = 2, handler_pending = None\<rparr>]\<rparr> =
    \<lparr>hist = \<lparr>shots = map (\<lambda>i. \<lparr>id_shot = i\<rparr>) [3, 4, 5, 6, 7, 8],
             pending = Some \<lparr>id_pend = 2, secondsLeft = 5\<rparr>, interval = True\<rparr>,
     press_timers = []\<rparr>"
    by (simp add: hold_def handleLongPressDelete_def useEffect_pending_def)
  have "pending (handleLongPressDelete None 2 (requestDelete 1 HistoryScreen_init)) =
      Some \<lparr>id_pend = 2, secondsLeft = 5\<rparr>"
    by (simp add: handleLongPressDelete_def useEffect_pending_def)
  moreover have "pending (requestDelete 1 HistoryScreen_init) =
      Some \<lparr>id_pend = 1, secondsLeft = 5\<rparr>"
    by (simp add: request_idle init_idle)
  ultimately have c: "handleLongPressDelete None 2 (requestDelete 1 HistoryScreen_init) \<noteq>
     requestDelete 1 HistoryScreen_init" by auto
  show ?thesis using c by (simp only: a b) simp
qed

end
